theory Spec2Isabelle
  imports Main "HOL-Library.Sublist"
begin

section \<open>Python string operations used by the sources\<close>

text \<open>
  Python strings are modelled as \<^typ>\<open>string\<close>, one \<^typ>\<open>char\<close> per code point
  (so the model covers code points below 256). The sources call \<open>str.split\<close>,
  \<open>str.replace\<close>, \<open>str.strip\<close>, the operator \<open>in\<close> and \<open>re.findall\<close>; each is
  written out here the way CPython computes it. Every separator the sources pass is a
  non-empty literal; on an empty separator (where Python raises \<open>ValueError\<close>) the
  functions below never split.
\<close>

fun str_contains :: "string \<Rightarrow> string \<Rightarrow> bool" where
  "str_contains sub [] = (sub = [])"
| "str_contains sub (c # cs) = (prefix sub (c # cs) \<or> str_contains sub cs)"

text \<open>\<open>s.split(sep)\<close>: the leftmost non-overlapping occurrences of \<open>sep\<close> cut \<open>s\<close>.\<close>

function str_split :: "string \<Rightarrow> string \<Rightarrow> string list" where
  "str_split sep [] = [[]]"
| "str_split sep (c # cs) =
     (if sep \<noteq> [] \<and> prefix sep (c # cs)
      then [] # str_split sep (drop (length sep) (c # cs))
      else (case str_split sep cs of [] \<Rightarrow> [[c]] | t # ts \<Rightarrow> (c # t) # ts))"
  by pat_completeness auto
termination
  by (relation "measure (\<lambda>(sep, s). length s)") auto

text \<open>\<open>sep.join(ts)\<close>.\<close>

fun str_join :: "string \<Rightarrow> string list \<Rightarrow> string" where
  "str_join sep [] = []"
| "str_join sep [t] = t"
| "str_join sep (t # u # ts) = t @ sep @ str_join sep (u # ts)"

text \<open>\<open>s.replace(old, new)\<close>: every leftmost non-overlapping occurrence is replaced.\<close>

function str_replace :: "string \<Rightarrow> string \<Rightarrow> string \<Rightarrow> string" where
  "str_replace old new [] = []"
| "str_replace old new (c # cs) =
     (if old \<noteq> [] \<and> prefix old (c # cs)
      then new @ str_replace old new (drop (length old) (c # cs))
      else c # str_replace old new cs)"
  by pat_completeness auto
termination
  by (relation "measure (\<lambda>(old, new, s). length s)") auto

text \<open>
  \<open>s.strip()\<close> removes leading and trailing whitespace; below 256 the code points with
  \<open>str.isspace\<close> are 9 to 13, 28 to 32, 133 and 160.
\<close>

definition is_space :: "char \<Rightarrow> bool" where
  "is_space c = (of_char c \<in> set [9, 10, 11, 12, 13, 28, 29, 30, 31, 32, 133, 160 :: nat])"

definition str_strip :: "string \<Rightarrow> string" where
  "str_strip s = rev (dropWhile is_space (rev (dropWhile is_space s)))"

text \<open>
  \<open>re.compile(open (.*?) close).findall(s)\<close> for a one-character opening and closing
  delimiter: the list of the captured groups. The scan is in state \<open>None\<close> outside a
  match and \<open>Some acc\<close> after an opening delimiter, \<open>acc\<close> holding the group read so
  far in reverse. The group is lazy, so the first closing delimiter ends the match;
  \<open>.\<close> does not match a newline, so a newline abandons the match, and no opening
  delimiter before that newline could start one either.
\<close>

fun findall_scan :: "char \<Rightarrow> char \<Rightarrow> string option \<Rightarrow> string \<Rightarrow> string list" where
  "findall_scan opn cls st [] = []"
| "findall_scan opn cls None (c # cs) =
     (if c = opn then findall_scan opn cls (Some []) cs else findall_scan opn cls None cs)"
| "findall_scan opn cls (Some acc) (c # cs) =
     (if c = cls then rev acc # findall_scan opn cls None cs
      else if c = CHR ''\<newline>'' then findall_scan opn cls None cs
      else findall_scan opn cls (Some (c # acc)) cs)"

text \<open>\<open>listExp = re.compile('\[(.*?)\]')\<close> and \<open>stringExp = re.compile('\'(.*?)\'')\<close>.\<close>

definition listExp_findall :: "string \<Rightarrow> string list" where
  "listExp_findall s = findall_scan CHR ''['' CHR '']'' None s"

definition stringExp_findall :: "string \<Rightarrow> string list" where
  "stringExp_findall s = findall_scan (CHR 0x27) (CHR 0x27) None s"

text \<open>\<open>str(n)\<close> for a non-negative integer: its decimal digits.\<close>

fun str_nat :: "nat \<Rightarrow> string" where
  "str_nat n =
     (if n < 10 then [char_of (48 + n)] else str_nat (n div 10) @ [char_of (48 + n mod 10)])"

declare str_nat.simps [simp del]

subsection \<open>Facts about splitting\<close>

lemma str_split_nonempty: "str_split sep s \<noteq> []"
  by (induction sep s rule: str_split.induct) (auto split: list.splits)

lemma str_contains_Nil: "str_contains [] s"
  by (cases s) auto

lemma str_split_no_sep: "\<not> str_contains sep s \<Longrightarrow> str_split sep s = [s]"
proof (induction s)
  case Nil
  then show ?case by simp
next
  case (Cons c cs)
  then show ?case by (auto split: list.splits)
qed

lemma str_join_Cons: "ts \<noteq> [] \<Longrightarrow> str_join sep (t # ts) = t @ sep @ str_join sep ts"
  by (cases ts) auto

lemma str_join_split: "str_join sep (str_split sep s) = s"
proof (induction sep s rule: str_split.induct)
  case (1 sep)
  show ?case by simp
next
  case (2 sep c cs)
  show ?case
  proof (cases "sep \<noteq> [] \<and> prefix sep (c # cs)")
    case True
    then have split: "str_split sep (c # cs) = [] # str_split sep (drop (length sep) (c # cs))"
      by simp
    have "sep @ drop (length sep) (c # cs) = c # cs"
      using True by (metis append_eq_conv_conj prefix_def)
    moreover have "str_join sep (str_split sep (drop (length sep) (c # cs)))
        = drop (length sep) (c # cs)"
      using 2(1) True by simp
    ultimately show ?thesis
      unfolding split by (simp add: str_join_Cons str_split_nonempty)
  next
    case False
    with 2(2) show ?thesis
      by (cases "str_split sep cs"; cases "tl (str_split sep cs)") auto
  qed
qed

text \<open>The first piece of a split holds no separator.\<close>

lemma prefix_Cons_append: "prefix sep (c # s) \<Longrightarrow> prefix sep (c # s @ t)"
  using prefix_prefix [of sep "c # s" t] by simp

lemma str_contains_append_prefix:
  "str_contains sep s \<Longrightarrow> str_contains sep (s @ t)"
  by (induction s) (auto simp: str_contains_Nil prefix_Cons_append)

lemma hd_str_split_no_sep:
  "sep \<noteq> [] \<Longrightarrow> \<not> str_contains sep (hd (str_split sep s))"
proof (induction sep s rule: str_split.induct)
  case (1 sep)
  then show ?case by simp
next
  case (2 sep c cs)
  show ?case
  proof (cases "prefix sep (c # cs)")
    case True
    with 2(3) show ?thesis by simp
  next
    case False
    obtain t ts where ts: "str_split sep cs = t # ts"
      using str_split_nonempty [of sep cs] by (cases "str_split sep cs") auto
    have nt: "\<not> str_contains sep t"
      using 2(2) False 2(3) ts by simp
    have "\<not> prefix sep (c # t)"
    proof
      assume p: "prefix sep (c # t)"
      have "s = str_join sep (str_split sep s)" for s
        by (simp add: str_join_split)
      then have "cs = str_join sep (t # ts)"
        using ts by metis
      then obtain r where "cs = t @ r"
        by (cases ts) auto
      with p have "prefix sep (c # cs)"
        by (simp add: prefix_Cons_append)
      with False show False by simp
    qed
    with nt False ts show ?thesis by simp
  qed
qed

section \<open>The rule-token parser (\<open>schematic/utils/schema_utils.py\<close>)\<close>

text \<open>
  \<^verbatim>\<open>
  def parse_validation_rules(validation_rules: List[str]) -> List[str]:
      if validation_rules and "::" in validation_rules[0]:
          validation_rules = validation_rules[0].split("::")
      return validation_rules
  \<close>
  The guard \<open>validation_rules and ...\<close> keeps \<open>validation_rules[0]\<close> from being read on
  an empty list.
\<close>

fun parse_validation_rules :: "string list \<Rightarrow> string list" where
  "parse_validation_rules [] = []"
| "parse_validation_rules (r # rs) =
     (if str_contains ''::'' r then str_split ''::'' r else r # rs)"

text \<open>
  Claim C7, as amended. For a list holding one validation-rule string, the parser
  returns the complete list of that string's \<open>::\<close>-delimited tokens: the result is the
  split of the string on \<open>::\<close>, and joining the result with \<open>::\<close> gives the string
  back, so nothing of it is lost.
\<close>

theorem parse_validation_rules_single:
  "parse_validation_rules [r] = str_split ''::'' r \<and>
   str_join ''::'' (parse_validation_rules [r]) = r"
  by (simp add: str_split_no_sep str_join_split)

text \<open>
  Claim C7 as stated fails on a list of two rule strings: the token \<open>c\<close> of the second
  string is not in the result, which holds the tokens of the first string only.
\<close>

theorem parse_validation_rules_drops_rest:
  "parse_validation_rules [''a::b'', ''c''] = [''a'', ''b''] \<and>
   ''c'' \<in> set (str_split ''::'' ''c'') \<and>
   ''c'' \<notin> set (parse_validation_rules [''a::b'', ''c''])"
  by simp

section \<open>Manifest validation (\<open>MetadataModel.validateModelManifest\<close>)\<close>

subsection \<open>The parsed manifest\<close>

text \<open>
  \<open>pd.read_csv(manifestPath)\<close> is outside the model: the manifest is the data frame it
  returns, a list of named columns of equal length. A cell is missing (\<open>NaN\<close>), a
  string, a number or a boolean; numbers are integers here. A column is of dtype
  \<open>object\<close> when it holds a value that is not a number or a boolean: \<open>read_csv\<close> infers
  one type per column, and \<open>fillna("")\<close> turns a numeric column with a missing cell
  into an \<open>object\<close> column, the empty string being one of its values.
\<close>

datatype cell = Null | Str string | Num int | Boolean bool

type_synonym column = "string \<times> cell list"
type_synonym dataframe = "column list"
type_synonym annotation = "(string \<times> cell) list"

text \<open>\<open>manifest.fillna(value)\<close>.\<close>

definition fillna :: "cell \<Rightarrow> dataframe \<Rightarrow> dataframe" where
  "fillna v df = map (\<lambda>(name, x). (name, map (\<lambda>c. if c = Null then v else c) x)) df"

fun is_str :: "cell \<Rightarrow> bool" where
  "is_str (Str s) = True"
| "is_str c = False"

text \<open>\<open>x.dtype == "object"\<close> for a column without missing cells.\<close>

definition dtype_object :: "cell list \<Rightarrow> bool" where
  "dtype_object x = list_ex is_str x"

text \<open>
  \<open>x.str.strip()\<close> on an \<open>object\<close> column: a string is stripped, and pandas' \<open>.str\<close>
  accessor gives \<open>NaN\<close> for every element that is not a string.
\<close>

fun str_strip_cell :: "cell \<Rightarrow> cell" where
  "str_strip_cell (Str s) = Str (str_strip s)"
| "str_strip_cell c = Null"

text \<open>\<open>manifest.apply(lambda x: x.str.strip() if x.dtype == "object" else x)\<close>.\<close>

definition apply_strip :: "dataframe \<Rightarrow> dataframe" where
  "apply_strip df =
     map (\<lambda>(name, x). (name, if dtype_object x then map str_strip_cell x else x)) df"

text \<open>
  \<open>json.loads(df.to_json(orient='records'))\<close>: one dictionary per row, in row order,
  its keys the column names in column order (\<open>read_csv\<close> makes them distinct).
\<close>

definition nrows :: "dataframe \<Rightarrow> nat" where
  "nrows df = (case df of [] \<Rightarrow> 0 | (name, x) # _ \<Rightarrow> length x)"

definition to_records :: "dataframe \<Rightarrow> annotation list" where
  "to_records df = map (\<lambda>i. map (\<lambda>(name, x). (name, x ! i)) df) [0..<nrows df]"

text \<open>The records that are validated: the first three statements after the schema.\<close>

definition annotations_of :: "dataframe \<Rightarrow> annotation list" where
  "annotations_of manifest =
     (let manifest = fillna (Str []) manifest;
          manifest_trimmed = apply_strip manifest
      in to_records manifest_trimmed)"

subsection \<open>The validator\<close>

text \<open>
  \<open>jsonschema.validate(instance, schema)\<close> is the library's: it checks the schema
  (raising \<open>SchemaError\<close>), collects the violations of the instance with
  \<open>iter_errors\<close>, and raises the one that \<open>best_match\<close> picks, if there is any:
  \<^verbatim>\<open>
      cls.check_schema(schema)
      validator = cls(schema, *args, **kwargs)
      error = exceptions.best_match(validator.iter_errors(instance))
      if error is not None:
          raise error
  \<close>
  The three library functions are parameters of the model. A violation is
  represented by \<open>str(e)\<close>, the only thing the caller reads of it.
\<close>

record 's validator =
  check_schema :: "'s \<Rightarrow> bool"
  iter_errors :: "'s \<Rightarrow> annotation \<Rightarrow> string list"
  best_match :: "string list \<Rightarrow> string"

datatype exn = SchemaError | ValidationError string | IndexError

definition validate :: "'s validator \<Rightarrow> annotation \<Rightarrow> 's \<Rightarrow> exn + unit" where
  "validate V instance schema =
     (if \<not> check_schema V schema then Inl SchemaError
      else case iter_errors V schema instance of
             [] \<Rightarrow> Inr ()
           | e # es \<Rightarrow> Inl (ValidationError (best_match V (e # es))))"

subsection \<open>The \<open>except ValidationError\<close> branch\<close>

text \<open>
  The tuple appended for record \<open>i\<close> whose validation raised \<open>e\<close>, or the
  \<open>IndexError\<close> that the branch raises itself: \<open>stringExp.findall(errors[0])[0]\<close>
  when the first line of \<open>str(e)\<close> has no quoted part, and \<open>errors[-2]\<close> when
  \<open>str(e)\<close> is a single line. \<open>errorTerms\<close> is the empty list or a string. The
  branch goes on to extend \<open>errorMessage\<close>, which is not returned.
\<close>

datatype error_terms = NoTerms | Term string

type_synonym error_position = "nat \<times> error_terms \<times> string \<times> string list"

definition error_position :: "nat \<Rightarrow> string \<Rightarrow> exn + error_position" where
  "error_position i e =
     (let errorRow = i + 2;
          errorMessage = ''At row '' @ str_nat errorRow @ '': '';
          errors = str_split ''\<newline>'' e
      in case errors of [] \<Rightarrow> Inl IndexError | errors_0 # _ \<Rightarrow>
         (case stringExp_findall errors_0 of [] \<Rightarrow> Inl IndexError | errorValue # _ \<Rightarrow>
         (let errorMessage = errorMessage @ errors_0;
              allowedValues =
                (case listExp_findall errorMessage of
                   [] \<Rightarrow> []
                 | a # _ \<Rightarrow> str_split '', '' (str_replace [CHR 0x27] [] a))
          in if length errors < 2 then Inl IndexError
             else
               (let errorDetail =
                      str_replace ''On instance'' ''At term'' (errors ! (length errors - 2))
                in case listExp_findall errorDetail of
                     [] \<Rightarrow> Inr (errorRow, NoTerms, errorValue, allowedValues)
                   | t # _ \<Rightarrow>
                       (case str_split '', '' (str_replace [CHR 0x27] [] t) of
                          [] \<Rightarrow> Inl IndexError
                        | errorTerms # _ \<Rightarrow>
                            Inr (errorRow, Term errorTerms, errorValue, allowedValues))))))"

subsection \<open>The loop and the method\<close>

text \<open>
  \<^verbatim>\<open>
  errorPositions = []
  for i, annotation in enumerate(annotations):
      try:
          validate(instance = annotation, schema = jsonSchema)
      except ValidationError as e:
          ...
          errorPositions.append((errorRow, errorTerms, errorValue, allowedValues))
  return errorPositions
  \<close>
  Only \<open>ValidationError\<close> is caught: any other exception ends the call.
\<close>

fun validate_loop ::
  "'s validator \<Rightarrow> 's \<Rightarrow> (nat \<times> annotation) list \<Rightarrow> error_position list
    \<Rightarrow> exn + error_position list" where
  "validate_loop V jsonSchema [] errorPositions = Inr errorPositions"
| "validate_loop V jsonSchema ((i, annotation) # rest) errorPositions =
     (case validate V annotation jsonSchema of
        Inr u \<Rightarrow> validate_loop V jsonSchema rest errorPositions
      | Inl (ValidationError e) \<Rightarrow>
          (case error_position i e of
             Inl x \<Rightarrow> Inl x
           | Inr p \<Rightarrow> validate_loop V jsonSchema rest (errorPositions @ [p]))
      | Inl x \<Rightarrow> Inl x)"

text \<open>
  The method. \<open>get_JSONSchema_requirements\<close> (module \<open>schema_generator\<close>) is a
  parameter; it is called when no schema is passed:
  \<^verbatim>\<open>
  if not jsonSchema:
      jsonSchema = get_JSONSchema_requirements(self.se, rootNode, rootNode + "_validation")
  \<close>
\<close>

definition schema_in_use :: "(string \<Rightarrow> string \<Rightarrow> 's) \<Rightarrow> string \<Rightarrow> 's option \<Rightarrow> 's" where
  "schema_in_use get_JSONSchema_requirements rootNode jsonSchema =
     (case jsonSchema of
        None \<Rightarrow> get_JSONSchema_requirements rootNode (rootNode @ ''_validation'')
      | Some schema \<Rightarrow> schema)"

definition validateModelManifest ::
  "'s validator \<Rightarrow> (string \<Rightarrow> string \<Rightarrow> 's) \<Rightarrow> dataframe \<Rightarrow> string \<Rightarrow> 's option
    \<Rightarrow> exn + error_position list" where
  "validateModelManifest V get_JSONSchema_requirements manifest rootNode jsonSchema =
     (let jsonSchema = schema_in_use get_JSONSchema_requirements rootNode jsonSchema;
          annotations = annotations_of manifest
      in validate_loop V jsonSchema (enumerate 0 annotations) [])"

subsection \<open>Manifests that differ in white space or in missing cells\<close>

text \<open>
  Two cells are similar when they are equal, when both are strings with the same
  stripped text (they differ in leading or trailing white space only), or when one is
  missing and the other the empty string. Two columns are similar when they have the
  same name and similar cells, row by row.
\<close>

fun cell_similar :: "cell \<Rightarrow> cell \<Rightarrow> bool" where
  "cell_similar (Str s) (Str t) = (str_strip s = str_strip t)"
| "cell_similar Null (Str t) = (t = [])"
| "cell_similar (Str s) Null = (s = [])"
| "cell_similar c d = (c = d)"

definition column_similar :: "column \<Rightarrow> column \<Rightarrow> bool" where
  "column_similar a b = (fst a = fst b \<and> list_all2 cell_similar (snd a) (snd b))"

text \<open>
  \<open>normalised c d\<close>: the validated cell \<open>d\<close> is the normal form of the manifest's cell
  \<open>c\<close>, where \<open>c\<close> is missing or a string.
\<close>

definition normalised :: "cell \<Rightarrow> cell \<Rightarrow> bool" where
  "normalised c d =
     (case c of Null \<Rightarrow> d = Str [] | Str s \<Rightarrow> d = Str (str_strip s) | _ \<Rightarrow> True)"

text \<open>What \<open>fillna\<close> and the strip do to one column.\<close>

definition trim_column :: "cell list \<Rightarrow> cell list" where
  "trim_column x =
     (let y = map (\<lambda>c. if c = Null then Str [] else c) x
      in if dtype_object y then map str_strip_cell y else y)"

subsection \<open>Sample validators\<close>

text \<open>
  Violations as \<open>jsonschema\<close> prints them (\<open>str(e)\<close>: the message, the failed keyword with
  its schema, the instance), and a validator that reports them: a \<open>Diagnosis\<close> of
  \<open>Unknown\<close> violates the enumeration and leaves \<open>Cancer Type\<close> missing, an \<open>Age\<close> of
  \<open>abc\<close> violates a pattern, an \<open>Age\<close> of 5 a minimum.
\<close>

definition lines :: "string list \<Rightarrow> string" where
  "lines ls = str_join ''\<newline>'' ls"

definition enum_violation :: string where
  "enum_violation = lines
     [CHR 0x27 # ''Unknown' is not one of ['Cancer', 'Healthy']'',
      '''',
      ''Failed validating 'enum' in schema['properties']['Diagnosis']:'',
      ''    {'enum': ['Cancer', 'Healthy']}'',
      '''',
      ''On instance['Diagnosis']:'',
      ''    'Unknown'' @ [CHR 0x27]]"

definition required_violation :: string where
  "required_violation = lines
     [CHR 0x27 # ''Cancer Type' is a required property'',
      '''',
      ''Failed validating 'required' in schema:'',
      ''    {'required': ['Cancer Type']}'',
      '''',
      ''On instance:'',
      ''    {'Diagnosis': 'Unknown'}'']"

definition pattern_violation :: string where
  "pattern_violation = lines
     [CHR 0x27 # ''abc' does not match '^[0-9]+$'' @ [CHR 0x27],
      '''',
      ''Failed validating 'pattern' in schema['properties']['Age']:'',
      ''    {'pattern': '^[0-9]+$'}'',
      '''',
      ''On instance['Age']:'',
      ''    'abc'' @ [CHR 0x27]]"

definition minimum_violation :: string where
  "minimum_violation = lines
     [''5 is less than the minimum of 10'',
      '''',
      ''Failed validating 'minimum' in schema['properties']['Age']:'',
      ''    {'minimum': 10}'',
      '''',
      ''On instance['Age']:'',
      ''    5'']"

definition sample_validator :: "unit validator" where
  "sample_validator =
     \<lparr>check_schema = (\<lambda>schema. True),
      iter_errors = (\<lambda>schema instance.
         (if map_of instance ''Diagnosis'' = Some (Str ''Unknown'')
          then [enum_violation, required_violation] else []) @
         (if map_of instance ''Age'' = Some (Str ''abc'') then [pattern_violation] else []) @
         (if map_of instance ''Age'' = Some (Num 5) then [minimum_violation] else [])),
      best_match = hd\<rparr>"

definition no_schema :: "string \<Rightarrow> string \<Rightarrow> unit" where
  "no_schema rootNode name = ()"

definition patients :: dataframe where
  "patients = [(''Diagnosis'', [Str ''Healthy'', Str '' Unknown'', Null, Str ''Unknown''])]"

subsection \<open>What the loop returns\<close>

lemma validate_Inr_iff:
  "(\<exists>u. validate V a S = Inr u) \<longleftrightarrow> check_schema V S \<and> iter_errors V S a = []"
  by (auto simp: validate_def split: list.splits)

lemma validate_ValidationError:
  "validate V a S = Inl (ValidationError e) \<Longrightarrow> iter_errors V S a \<noteq> []"
  by (auto simp: validate_def split: list.splits if_splits)

lemma error_position_row: "error_position i e = Inr (r, t, v, al) \<Longrightarrow> r = i + 2"
  by (auto simp: error_position_def Let_def split: list.splits if_splits)

lemma validate_loop_rows:
  "validate_loop V S xs acc = Inr ds \<Longrightarrow>
   \<exists>ps. ds = acc @ ps \<and>
        map fst ps = map (\<lambda>(i, a). i + 2) (filter (\<lambda>(i, a). iter_errors V S a \<noteq> []) xs)"
proof (induction xs arbitrary: acc)
  case Nil
  then show ?case by simp
next
  case (Cons x xs)
  obtain i a where x: "x = (i, a)" by (cases x)
  show ?case
  proof (cases "validate V a S")
    case (Inr u)
    then have "iter_errors V S a = []"
      using validate_Inr_iff [of V a S] by auto
    moreover from Cons.prems Inr x have "validate_loop V S xs acc = Inr ds" by simp
    ultimately show ?thesis using Cons.IH x by simp
  next
    case (Inl err)
    with Cons.prems x obtain e where e: "err = ValidationError e"
      by (cases err) auto
    with Inl have bad: "iter_errors V S a \<noteq> []"
      by (simp add: validate_ValidationError)
    from Cons.prems Inl x e obtain p where p: "error_position i e = Inr p"
      and rest: "validate_loop V S xs (acc @ [p]) = Inr ds"
      by (auto split: sum.splits)
    obtain r t v al where pp: "p = (r, t, v, al)" by (cases p)
    with p have r: "r = i + 2" using error_position_row [of i e r t v al] by simp
    from Cons.IH [OF rest] obtain ps where
      "ds = (acc @ [p]) @ ps"
      "map fst ps = map (\<lambda>(i, a). i + 2) (filter (\<lambda>(i, a). iter_errors V S a \<noteq> []) xs)"
      by blast
    with bad x pp r show ?thesis by simp
  qed
qed

lemma validate_loop_elems:
  "validate_loop V S xs acc = Inr ds \<Longrightarrow> p \<in> set ds \<Longrightarrow>
   p \<in> set acc \<or> (\<exists>i e. error_position i e = Inr p)"
proof (induction xs arbitrary: acc)
  case Nil
  then show ?case by simp
next
  case (Cons x xs)
  obtain i a where x: "x = (i, a)" by (cases x)
  show ?case
  proof (cases "validate V a S")
    case (Inr u)
    with Cons x show ?thesis by simp
  next
    case (Inl err)
    with Cons.prems x obtain e where e: "err = ValidationError e"
      by (cases err) auto
    from Cons.prems Inl x e obtain q where q: "error_position i e = Inr q"
      and rest: "validate_loop V S xs (acc @ [q]) = Inr ds"
      by (auto split: sum.splits)
    from Cons.IH [OF rest Cons.prems(2)] q show ?thesis by auto
  qed
qed

lemma str_split_first_no_sep:
  assumes "sep \<noteq> []" and "str_split sep s = t # ts"
  shows "\<not> str_contains sep t"
  using hd_str_split_no_sep [OF assms(1), of s] assms(2) by simp

lemma str_split_first_subset:
  assumes "str_split sep s = t # ts"
  shows "set t \<subseteq> set s"
proof -
  have "s = str_join sep (t # ts)"
    using str_join_split [of sep s] assms by simp
  then show ?thesis by (cases ts) auto
qed

lemma str_replace_removes: "c \<notin> set (str_replace [c] [] s)"
  by (induction "[c]" "[] :: string" s rule: str_replace.induct) auto

lemma error_position_terms:
  assumes "error_position i e = Inr (r, Term n, v, al)"
  shows "\<not> str_contains '', '' n \<and> CHR 0x27 \<notin> set n"
proof -
  from assms obtain t ts where "str_split '', '' (str_replace [CHR 0x27] [] t) = n # ts"
    by (auto simp: error_position_def Let_def split: list.splits if_splits)
  then show ?thesis
    using str_split_first_no_sep [of "'', ''" "str_replace [CHR 0x27] [] t" n ts]
      str_split_first_subset [of "'', ''" "str_replace [CHR 0x27] [] t" n ts]
      str_replace_removes [of "CHR 0x27" t]
    by auto
qed

lemma length_filter_enumerate:
  "length (filter (\<lambda>(i, a). P a) (enumerate n xs)) = length (filter P xs)"
  by (induction xs arbitrary: n) auto

lemma validateModelManifest_loop:
  "validateModelManifest V g manifest rootNode jsonSchema =
   validate_loop V (schema_in_use g rootNode jsonSchema)
     (enumerate 0 (annotations_of manifest)) []"
  by (simp add: validateModelManifest_def)

lemma validateModelManifest_rows:
  assumes "validateModelManifest V g manifest rootNode jsonSchema = Inr errorPositions"
  shows "map fst errorPositions =
           map (\<lambda>(i, a). i + 2)
             (filter (\<lambda>(i, a). iter_errors V (schema_in_use g rootNode jsonSchema) a \<noteq> [])
                (enumerate 0 (annotations_of manifest)))"
  using validate_loop_rows [of V _ _ "[]" errorPositions] assms
  by (simp add: validateModelManifest_loop)

subsection \<open>Claims about the diagnostics\<close>

text \<open>
  Claim C1, as amended. The loop goes through every record and does not stop at a
  record that fails; a failing record contributes one diagnostic, for the violation
  \<open>best_match\<close> picks, however many constraints it violates. So when the call returns,
  there are as many diagnostics as records with a violation.
\<close>

theorem validateModelManifest_one_per_record:
  assumes "validateModelManifest V g manifest rootNode jsonSchema = Inr errorPositions"
  shows "length errorPositions =
         length (filter (\<lambda>a. iter_errors V (schema_in_use g rootNode jsonSchema) a \<noteq> [])
                   (annotations_of manifest))"
proof -
  let ?S = "schema_in_use g rootNode jsonSchema"
  let ?xs = "enumerate 0 (annotations_of manifest)"
  have "length errorPositions = length (map fst errorPositions)"
    by simp
  also have "\<dots> = length (filter (\<lambda>(i, a). iter_errors V ?S a \<noteq> []) ?xs)"
    unfolding validateModelManifest_rows [OF assms] by simp
  finally show ?thesis
    by (simp only: length_filter_enumerate)
qed

theorem validateModelManifest_one_per_record_witness:
  "validateModelManifest sample_validator no_schema patients ''Patient'' None =
     Inr [(3, Term ''Diagnosis'', ''Unknown'', [''Cancer'', ''Healthy'']),
          (5, Term ''Diagnosis'', ''Unknown'', [''Cancer'', ''Healthy''])] \<and>
   length (filter (\<lambda>a. iter_errors sample_validator
                          (schema_in_use no_schema ''Patient'' None) a \<noteq> [])
             (annotations_of patients)) = 2"
proof -
  have h: "validateModelManifest sample_validator no_schema patients ''Patient'' None =
     Inr [(3, Term ''Diagnosis'', ''Unknown'', [''Cancer'', ''Healthy'']),
          (5, Term ''Diagnosis'', ''Unknown'', [''Cancer'', ''Healthy''])]"
    by code_simp
  show ?thesis
    using h validateModelManifest_one_per_record [OF h] by simp
qed

text \<open>
  Claim C1 as stated fails: the record of this one-row manifest violates two
  constraints (\<open>iter_errors\<close> reports the enumeration and the missing
  \<open>Cancer Type\<close>), and the call returns one diagnostic.
\<close>

theorem validateModelManifest_two_violations_one_diagnostic:
  "annotations_of [(''Diagnosis'', [Str ''Unknown''])] = [[(''Diagnosis'', Str ''Unknown'')]] \<and>
   length (iter_errors sample_validator () [(''Diagnosis'', Str ''Unknown'')]) = 2 \<and>
   validateModelManifest sample_validator no_schema
     [(''Diagnosis'', [Str ''Unknown''])] ''Patient'' None =
     Inr [(2, Term ''Diagnosis'', ''Unknown'', [''Cancer'', ''Healthy''])]"
  by code_simp

text \<open>
  Claim C2 fails on this input: the record's \<open>Age\<close> is below the schema's minimum, the
  first line of the validator's message has no quoted part, and
  \<open>stringExp.findall(errors[0])[0]\<close> raises \<open>IndexError\<close> out of the call.
\<close>

theorem validateModelManifest_raises_IndexError:
  "validateModelManifest sample_validator no_schema [(''Age'', [Num 5])] ''Patient'' None =
     Inl IndexError"
  by code_simp

text \<open>
  Claim C4 fails on this input: the violation is of a pattern, not of an enumeration,
  and \<open>allowedValues\<close> is not empty; it holds the bracketed part of the pattern.
\<close>

theorem validateModelManifest_allowedValues_of_pattern:
  "validateModelManifest sample_validator no_schema [(''Age'', [Str ''abc''])] ''Patient'' None =
     Inr [(2, Term ''Age'', ''abc'', [''0-9''])]"
  by code_simp

text \<open>
  Claim C5. When the call returns, the row numbers of the diagnostics are, in order,
  \<open>i + 2\<close> for the positions \<open>i\<close> (counted from 0) of the records with a violation;
  every row number is at least 2.
\<close>

theorem validateModelManifest_row_numbers:
  assumes "validateModelManifest V g manifest rootNode jsonSchema = Inr errorPositions"
  shows "map fst errorPositions =
           map (\<lambda>(i, a). i + 2)
             (filter (\<lambda>(i, a). iter_errors V (schema_in_use g rootNode jsonSchema) a \<noteq> [])
                (enumerate 0 (annotations_of manifest))) \<and>
         list_all (\<lambda>p. 2 \<le> fst p) errorPositions"
proof -
  note rows = validateModelManifest_rows [OF assms]
  have "\<forall>r \<in> set (map fst errorPositions). 2 \<le> r"
    unfolding rows by auto
  then have "list_all (\<lambda>p. 2 \<le> fst p) errorPositions"
    by (simp add: list_all_iff)
  with rows show ?thesis by simp
qed

theorem validateModelManifest_row_numbers_witness:
  "validateModelManifest sample_validator no_schema patients ''Patient'' None =
     Inr [(3, Term ''Diagnosis'', ''Unknown'', [''Cancer'', ''Healthy'']),
          (5, Term ''Diagnosis'', ''Unknown'', [''Cancer'', ''Healthy''])] \<and>
   map (\<lambda>(i, a). i + 2)
     (filter (\<lambda>(i, a). iter_errors sample_validator
                          (schema_in_use no_schema ''Patient'' None) a \<noteq> [])
        (enumerate 0 (annotations_of patients))) = [3, 5]"
proof -
  have h: "validateModelManifest sample_validator no_schema patients ''Patient'' None =
     Inr [(3, Term ''Diagnosis'', ''Unknown'', [''Cancer'', ''Healthy'']),
          (5, Term ''Diagnosis'', ''Unknown'', [''Cancer'', ''Healthy''])]"
    by code_simp
  show ?thesis
    using h validateModelManifest_row_numbers [OF h] by simp
qed

text \<open>
  Claim C10. When the call returns, the \<open>errorTerms\<close> component of every diagnostic is
  the empty list or one name: the first piece of a split on the separator of a list of
  names, so it holds neither that separator nor a quote.
\<close>

theorem validateModelManifest_single_term:
  assumes "validateModelManifest V g manifest rootNode jsonSchema = Inr errorPositions"
    and "(errorRow, errorTerms, errorValue, allowedValues) \<in> set errorPositions"
  shows "errorTerms = NoTerms \<or>
         (\<exists>name. errorTerms = Term name \<and> \<not> str_contains '', '' name \<and> CHR 0x27 \<notin> set name)"
proof -
  from assms(1) have "validate_loop V (schema_in_use g rootNode jsonSchema)
      (enumerate 0 (annotations_of manifest)) [] = Inr errorPositions"
    by (simp add: validateModelManifest_loop)
  from validate_loop_elems [OF this assms(2)] obtain i e where
    "error_position i e = Inr (errorRow, errorTerms, errorValue, allowedValues)"
    by auto
  then show ?thesis
    using error_position_terms [of i e errorRow _ errorValue allowedValues]
    by (cases errorTerms) auto
qed

theorem validateModelManifest_single_term_witness:
  "validateModelManifest sample_validator no_schema patients ''Patient'' None =
     Inr [(3, Term ''Diagnosis'', ''Unknown'', [''Cancer'', ''Healthy'']),
          (5, Term ''Diagnosis'', ''Unknown'', [''Cancer'', ''Healthy''])] \<and>
   (Term ''Diagnosis'' = NoTerms \<or>
    (\<exists>name. Term ''Diagnosis'' = Term name \<and> \<not> str_contains '', '' name \<and>
       CHR 0x27 \<notin> set name))"
proof -
  have h: "validateModelManifest sample_validator no_schema patients ''Patient'' None =
     Inr [(3, Term ''Diagnosis'', ''Unknown'', [''Cancer'', ''Healthy'']),
          (5, Term ''Diagnosis'', ''Unknown'', [''Cancer'', ''Healthy''])]"
    by code_simp
  have "(3::nat, Term ''Diagnosis'', ''Unknown'', [''Cancer'', ''Healthy'']) \<in>
      set [(3, Term ''Diagnosis'', ''Unknown'', [''Cancer'', ''Healthy'']),
           (5, Term ''Diagnosis'', ''Unknown'', [''Cancer'', ''Healthy''])]"
    by simp
  from validateModelManifest_single_term [OF h this] h show ?thesis
    by blast
qed

subsection \<open>Normalisation of the manifest\<close>

lemma str_strip_Nil: "str_strip [] = []"
  by (simp add: str_strip_def)

lemma apply_strip_fillna:
  "apply_strip (fillna (Str []) df) = map (\<lambda>(name, x). (name, trim_column x)) df"
  by (simp add: apply_strip_def fillna_def trim_column_def Let_def case_prod_unfold)

lemma dtype_object_filled:
  "dtype_object (map (\<lambda>c. if c = Null then Str [] else c) x)
     \<longleftrightarrow> list_ex (\<lambda>c. c = Null \<or> is_str c) x"
  by (induction x) (auto simp: dtype_object_def)

lemma cell_similar_kind:
  "cell_similar c d \<Longrightarrow> (c = Null \<or> is_str c) \<longleftrightarrow> (d = Null \<or> is_str d)"
  by (cases c; cases d) auto

lemma cell_similar_strip:
  "cell_similar c d \<Longrightarrow>
   str_strip_cell (if c = Null then Str [] else c) = str_strip_cell (if d = Null then Str [] else d)"
  by (cases c; cases d) (auto simp: str_strip_Nil)

lemma cell_similar_plain:
  "cell_similar c d \<Longrightarrow> \<not> (c = Null \<or> is_str c) \<Longrightarrow> c = d"
  by (cases c; cases d) auto

lemma similar_list_ex:
  "list_all2 cell_similar x y \<Longrightarrow>
   list_ex (\<lambda>c. c = Null \<or> is_str c) x \<longleftrightarrow> list_ex (\<lambda>c. c = Null \<or> is_str c) y"
  by (induction rule: list_all2_induct) (auto dest: cell_similar_kind)

lemma similar_map_strip:
  "list_all2 cell_similar x y \<Longrightarrow>
   map str_strip_cell (map (\<lambda>c. if c = Null then Str [] else c) x) =
   map str_strip_cell (map (\<lambda>c. if c = Null then Str [] else c) y)"
  by (induction rule: list_all2_induct) (auto dest: cell_similar_strip)

lemma similar_plain:
  "list_all2 cell_similar x y \<Longrightarrow> \<not> list_ex (\<lambda>c. c = Null \<or> is_str c) x \<Longrightarrow>
   map (\<lambda>c. if c = Null then Str [] else c) x = map (\<lambda>c. if c = Null then Str [] else c) y"
  by (induction rule: list_all2_induct) (auto dest: cell_similar_plain)

lemma trim_column_similar:
  assumes "list_all2 cell_similar x y"
  shows "trim_column x = trim_column y"
proof (cases "list_ex (\<lambda>c. c = Null \<or> is_str c) x")
  case True
  with similar_list_ex [OF assms] have "list_ex (\<lambda>c. c = Null \<or> is_str c) y" by simp
  with True show ?thesis
    by (simp add: trim_column_def dtype_object_filled similar_map_strip [OF assms] del: map_map)
next
  case False
  with similar_list_ex [OF assms] have "\<not> list_ex (\<lambda>c. c = Null \<or> is_str c) y" by simp
  with False show ?thesis
    by (simp add: trim_column_def dtype_object_filled similar_plain [OF assms] del: map_map)
qed

lemma annotations_similar:
  assumes "list_all2 column_similar m1 m2"
  shows "annotations_of m1 = annotations_of m2"
proof -
  from assms have "map (\<lambda>(name, x). (name, trim_column x)) m1
      = map (\<lambda>(name, x). (name, trim_column x)) m2"
    by (induction rule: list_all2_induct)
      (auto simp: column_similar_def dest: trim_column_similar)
  then show ?thesis
    by (simp add: annotations_of_def apply_strip_fillna)
qed

lemma trim_column_normalised: "list_all2 normalised x (trim_column x)"
proof -
  have "list_all2 normalised x (map (\<lambda>c. str_strip_cell (if c = Null then Str [] else c)) x)"
    by (induction x) (auto simp: normalised_def str_strip_Nil split: cell.splits)
  moreover have "\<not> list_ex (\<lambda>c. c = Null \<or> is_str c) x \<Longrightarrow>
      list_all2 normalised x (map (\<lambda>c. if c = Null then Str [] else c) x)"
    by (induction x) (auto simp: normalised_def split: cell.splits)
  ultimately show ?thesis
    by (auto simp: trim_column_def dtype_object_filled Let_def o_def)
qed

lemma length_trim_column: "length (trim_column x) = length x"
  by (simp add: trim_column_def Let_def)

lemma nrows_trimmed:
  "nrows (map (\<lambda>(name, x). (name, trim_column x)) df) = nrows df"
  by (cases df) (auto simp: nrows_def length_trim_column)

lemma annotations_of_cell:
  assumes "i < nrows manifest" and "j < length manifest"
  shows "annotations_of manifest ! i ! j =
           (fst (manifest ! j), trim_column (snd (manifest ! j)) ! i)"
proof -
  let ?N = "map (\<lambda>(name, x). (name, trim_column x)) manifest"
  have "annotations_of manifest = to_records ?N"
    by (simp add: annotations_of_def apply_strip_fillna)
  moreover have "to_records ?N ! i = map (\<lambda>(name, x). (name, x ! i)) ?N"
    using assms(1) by (simp add: to_records_def nrows_trimmed)
  ultimately show ?thesis
    using assms(2) by (simp add: case_prod_unfold)
qed

text \<open>
  Claim C9. The call validates the records of the manifest after \<open>fillna("")\<close> and
  the strip: its result is that of the loop over those records. In the normalised
  frame, and so in the validated record of every row, a missing cell has become the
  empty string and a string cell its stripped text. Hence two manifests whose columns
  are similar give the same result.
\<close>

theorem validateModelManifest_normalises:
  "validateModelManifest V g manifest rootNode jsonSchema =
     validate_loop V (schema_in_use g rootNode jsonSchema)
       (enumerate 0 (to_records (apply_strip (fillna (Str []) manifest)))) [] \<and>
   list_all2 (\<lambda>a b. fst b = fst a \<and> list_all2 normalised (snd a) (snd b))
     manifest (apply_strip (fillna (Str []) manifest)) \<and>
   (\<forall>i j. i < nrows manifest \<and> j < length manifest \<and> i < length (snd (manifest ! j)) \<longrightarrow>
      (\<exists>d. annotations_of manifest ! i ! j = (fst (manifest ! j), d) \<and>
           normalised (snd (manifest ! j) ! i) d)) \<and>
   (list_all2 column_similar manifest manifest' \<longrightarrow>
    validateModelManifest V g manifest rootNode jsonSchema =
    validateModelManifest V g manifest' rootNode jsonSchema)"
proof -
  have "list_all2 (\<lambda>a b. fst b = fst a \<and> list_all2 normalised (snd a) (snd b))
     manifest (map (\<lambda>(name, x). (name, trim_column x)) manifest)"
    by (induction manifest) (auto simp: trim_column_normalised)
  then have frame: "list_all2 (\<lambda>a b. fst b = fst a \<and> list_all2 normalised (snd a) (snd b))
     manifest (apply_strip (fillna (Str []) manifest))"
    by (simp only: apply_strip_fillna)
  have run: "validateModelManifest V g manifest rootNode jsonSchema =
     validate_loop V (schema_in_use g rootNode jsonSchema)
       (enumerate 0 (to_records (apply_strip (fillna (Str []) manifest)))) []"
    by (simp add: validateModelManifest_def annotations_of_def)
  have cells: "\<exists>d. annotations_of manifest ! i ! j = (fst (manifest ! j), d) \<and>
           normalised (snd (manifest ! j) ! i) d"
    if "i < nrows manifest" "j < length manifest" "i < length (snd (manifest ! j))" for i j
  proof -
    have "normalised (snd (manifest ! j) ! i) (trim_column (snd (manifest ! j)) ! i)"
      using trim_column_normalised [of "snd (manifest ! j)"] that(3)
      by (simp add: list_all2_conv_all_nth)
    with annotations_of_cell [OF that(1,2)] show ?thesis by blast
  qed
  have same: "validateModelManifest V g manifest rootNode jsonSchema =
      validateModelManifest V g manifest' rootNode jsonSchema"
    if "list_all2 column_similar manifest manifest'"
    unfolding validateModelManifest_def annotations_similar [OF that] ..
  from run frame cells same show ?thesis by blast
qed

theorem validateModelManifest_normalises_witness:
  "list_all2 column_similar patients
     [(''Diagnosis'', [Str ''Healthy '', Str ''Unknown'', Str [], Str ''  Unknown''])] \<and>
   (2::nat) < nrows patients \<and> (0::nat) < length patients \<and>
   (2::nat) < length (snd (patients ! 0)) \<and> snd (patients ! 0) ! 2 = Null \<and>
   annotations_of patients ! 2 ! 0 = (''Diagnosis'', Str []) \<and>
   annotations_of patients =
     [[(''Diagnosis'', Str ''Healthy'')], [(''Diagnosis'', Str ''Unknown'')],
      [(''Diagnosis'', Str [])], [(''Diagnosis'', Str ''Unknown'')]] \<and>
   validateModelManifest sample_validator no_schema patients ''Patient'' None =
     Inr [(3, Term ''Diagnosis'', ''Unknown'', [''Cancer'', ''Healthy'']),
          (5, Term ''Diagnosis'', ''Unknown'', [''Cancer'', ''Healthy''])] \<and>
   validateModelManifest sample_validator no_schema
     [(''Diagnosis'', [Str ''Healthy '', Str ''Unknown'', Str [], Str ''  Unknown''])]
     ''Patient'' None =
     Inr [(3, Term ''Diagnosis'', ''Unknown'', [''Cancer'', ''Healthy'']),
          (5, Term ''Diagnosis'', ''Unknown'', [''Cancer'', ''Healthy''])]"
proof -
  let ?m = "[(''Diagnosis'', [Str ''Healthy '', Str ''Unknown'', Str [], Str ''  Unknown''])]"
  have h: "list_all2 column_similar patients ?m"
    by code_simp
  have b: "(2::nat) < nrows patients \<and> (0::nat) < length patients \<and>
      (2::nat) < length (snd (patients ! 0)) \<and> snd (patients ! 0) ! 2 = Null"
    by code_simp
  have a: "annotations_of patients =
     [[(''Diagnosis'', Str ''Healthy'')], [(''Diagnosis'', Str ''Unknown'')],
      [(''Diagnosis'', Str [])], [(''Diagnosis'', Str ''Unknown'')]]"
    by code_simp
  have v: "validateModelManifest sample_validator no_schema patients ''Patient'' None =
     Inr [(3, Term ''Diagnosis'', ''Unknown'', [''Cancer'', ''Healthy'']),
          (5, Term ''Diagnosis'', ''Unknown'', [''Cancer'', ''Healthy''])]"
    by code_simp
  note t = validateModelManifest_normalises
      [of sample_validator no_schema patients "''Patient''" None ?m]
  from t h have same: "validateModelManifest sample_validator no_schema patients ''Patient'' None =
      validateModelManifest sample_validator no_schema ?m ''Patient'' None"
    by blast
  from t b obtain d where "annotations_of patients ! 2 ! 0 = (fst (patients ! 0), d)"
    and "normalised (snd (patients ! 0) ! 2) d"
    by blast
  with b have c: "annotations_of patients ! 2 ! 0 = (''Diagnosis'', Str [])"
    by (simp add: normalised_def patients_def)
  from h b c a v same show ?thesis by simp
qed

section \<open>The schema graph\<close>

text \<open>
  Modelled from the spec: the graph that \<open>SchemaExplorer\<close> holds (\<open>self.se.schema_nx\<close>,
  module \<open>schema_explorer\<close>, not among the sources). Nodes have unique string labels;
  an edge is a source label, a target label and a relationship kind. The resolvers
  query it with \<open>nodeExists\<close> and \<open>outEdges\<close>; the targets of \<open>outEdges\<close> are listed in
  the order of the edge list.
\<close>

type_synonym label = string

record graph =
  nodes :: "label list"
  edges :: "(label \<times> label \<times> string) list"

datatype graph_error = NotFound | CycleDetected

definition nodeExists :: "graph \<Rightarrow> label \<Rightarrow> bool" where
  "nodeExists G l = (l \<in> set (nodes G))"

definition outEdges :: "graph \<Rightarrow> label \<Rightarrow> string \<Rightarrow> label list" where
  "outEdges G u R = map (\<lambda>(a, b, k). b) (filter (\<lambda>(a, b, k). a = u \<and> k = R) (edges G))"

text \<open>The pairs joined by an edge of kind \<open>R\<close>.\<close>

definition rel_edges :: "graph \<Rightarrow> string \<Rightarrow> (label \<times> label) set" where
  "rel_edges G R = {(a, b). (a, b, R) \<in> set (edges G)}"

text \<open>
  The graph's invariant: every edge endpoint is a node of the graph.
\<close>

definition well_formed :: "graph \<Rightarrow> bool" where
  "well_formed G = list_all (\<lambda>(a, b, k). nodeExists G a \<and> nodeExists G b) (edges G)"

text \<open>The subgraph of kind \<open>R\<close> that is reachable from \<open>root\<close> has no cycle.\<close>

definition acyclic_from :: "graph \<Rightarrow> string \<Rightarrow> label \<Rightarrow> bool" where
  "acyclic_from G R root =
     (\<forall>x. (root, x) \<in> (rel_edges G R)\<^sup>* \<longrightarrow> (x, x) \<notin> (rel_edges G R)\<^sup>+)"

section \<open>The dependency resolver (\<open>MetadataModel.getOrderedModelNodes\<close>)\<close>

text \<open>
  Modelled from the spec: \<open>get_descendants_by_edge_type\<close> (module
  \<open>schema_generator\<close>, not among the sources), as called with \<open>connected = True\<close> and
  \<open>ordered = True\<close>. It is a depth-first traversal from the root along the edges of one
  kind. \<open>path\<close> holds the nodes whose visit is under way and \<open>order\<close> the finished
  nodes, each put in front of the nodes finished before it, so that \<open>order\<close> is a
  topological order: the source of an edge stands before its target. A node that is
  met again while still on the path signals \<open>CycleDetected\<close>; a finished node is not
  visited again, so it keeps the position of its first finished visit; a label that is
  not a node of the graph signals \<open>NotFound\<close>.
\<close>

function dfs_visit ::
    "graph \<Rightarrow> string \<Rightarrow> label list \<Rightarrow> label \<Rightarrow> label list \<Rightarrow> graph_error + label list"
  and dfs_visit_all ::
    "graph \<Rightarrow> string \<Rightarrow> label list \<Rightarrow> label list \<Rightarrow> label list \<Rightarrow> graph_error + label list"
where
  "dfs_visit G R path u order =
     (if u \<in> set path then Inl CycleDetected
      else if u \<in> set order then Inr order
      else if \<not> nodeExists G u then Inl NotFound
      else case dfs_visit_all G R (u # path) (outEdges G u R) order of
             Inl e \<Rightarrow> Inl e
           | Inr order' \<Rightarrow> Inr (u # order'))"
| "dfs_visit_all G R path [] order = Inr order"
| "dfs_visit_all G R path (v # vs) order =
     (case dfs_visit G R path v order of
        Inl e \<Rightarrow> Inl e
      | Inr order' \<Rightarrow> dfs_visit_all G R path vs order')"
  by pat_completeness auto
termination
proof (relation "inv_image (less_than <*lex*> less_than)
    (\<lambda>x. case x of
        Inl (G, R, path, u, order) \<Rightarrow> (card (set (nodes G) - set path), 0)
      | Inr (G, R, path, vs, order) \<Rightarrow> (card (set (nodes G) - set path), Suc (length vs)))")
  show "wf (inv_image (less_than <*lex*> less_than)
    (\<lambda>x. case x of
        Inl (G, R, path, u, order) \<Rightarrow> (card (set (nodes G) - set path), 0::nat)
      | Inr (G, R, path, vs, order) \<Rightarrow> (card (set (nodes G) - set path), Suc (length vs))))"
    by auto
next
  fix G :: graph and R :: string and path :: "label list" and u :: label and order :: "label list"
  assume "u \<notin> set path" and "\<not> \<not> nodeExists G u"
  then have "set (nodes G) - set (u # path) \<subset> set (nodes G) - set path"
    by (auto simp: nodeExists_def)
  then have "card (set (nodes G) - set (u # path)) < card (set (nodes G) - set path)"
    by (intro psubset_card_mono) auto
  then show "(Inr (G, R, u # path, outEdges G u R, order), Inl (G, R, path, u, order))
     \<in> inv_image (less_than <*lex*> less_than)
    (\<lambda>x. case x of
        Inl (G, R, path, u, order) \<Rightarrow> (card (set (nodes G) - set path), 0)
      | Inr (G, R, path, vs, order) \<Rightarrow> (card (set (nodes G) - set path), Suc (length vs)))"
    by simp
qed auto

declare dfs_visit.simps [simp del]

text \<open>
  Modelled from the spec: the result of \<open>get_descendants_by_edge_type\<close> is the
  topological order of the nodes reachable from the root, the root itself excluded.
\<close>

definition get_descendants_by_edge_type ::
  "graph \<Rightarrow> label \<Rightarrow> string \<Rightarrow> graph_error + label list" where
  "get_descendants_by_edge_type G source_node relationship =
     (case dfs_visit G relationship [] source_node [] of
        Inl e \<Rightarrow> Inl e
      | Inr order \<Rightarrow> Inr (filter (\<lambda>v. v \<noteq> source_node) order))"

text \<open>
  The method, from the source:
  \<^verbatim>\<open>
  ordered_nodes = get_descendants_by_edge_type(self.se.schema_nx, rootNode,
                      relationshipType, connected = True, ordered = True)
  ordered_nodes.reverse()
  return ordered_nodes
  \<close>
\<close>

definition getOrderedModelNodes :: "graph \<Rightarrow> label \<Rightarrow> string \<Rightarrow> graph_error + label list" where
  "getOrderedModelNodes schema_nx rootNode relationshipType =
     (case get_descendants_by_edge_type schema_nx rootNode relationshipType of
        Inl e \<Rightarrow> Inl e
      | Inr ordered_nodes \<Rightarrow> Inr (rev ordered_nodes))"

text \<open>
  \<open>topo G R xs\<close>: in \<open>xs\<close> no label occurs twice, and every target of an edge of kind
  \<open>R\<close> from a member of \<open>xs\<close> occurs in \<open>xs\<close> after that member.
\<close>

fun topo :: "graph \<Rightarrow> string \<Rightarrow> label list \<Rightarrow> bool" where
  "topo G R [] = True"
| "topo G R (x # xs) = (x \<notin> set xs \<and> set (outEdges G x R) \<subseteq> set xs \<and> topo G R xs)"

text \<open>\<open>precedes a b xs\<close>: \<open>b\<close> occurs in \<open>xs\<close> after the first occurrence of \<open>a\<close>.\<close>

fun precedes :: "'a \<Rightarrow> 'a \<Rightarrow> 'a list \<Rightarrow> bool" where
  "precedes a b [] = False"
| "precedes a b (x # xs) = (if x = a then b \<in> set xs else precedes a b xs)"

section \<open>The component requirement resolver (\<open>MetadataModel.get_component_requirements\<close>)\<close>

text \<open>
  Modelled from the spec: \<open>get_component_requirements\<close> of module \<open>schema_generator\<close>
  (not among the sources): the transitive closure over \<open>requiresComponent\<close> edges from
  the source component, visited breadth first, each component listed at its first
  visit. The queue holds each component with the path that led to it. \<open>expand\<close> goes
  through the requirements of one component: a requirement that is on the current
  path signals \<open>CycleDetected\<close>, one that is not a node \<open>NotFound\<close>, one visited
  before is skipped, and the others are the newly visited components, in order.
\<close>

fun expand ::
  "graph \<Rightarrow> label list \<Rightarrow> label list \<Rightarrow> label list \<Rightarrow> graph_error + label list" where
  "expand G path [] visited = Inr []"
| "expand G path (v # vs) visited =
     (if v \<in> set path then Inl CycleDetected
      else if \<not> nodeExists G v then Inl NotFound
      else if v \<in> set visited then expand G path vs visited
      else case expand G path vs (visited @ [v]) of
             Inl e \<Rightarrow> Inl e
           | Inr new \<Rightarrow> Inr (v # new))"

text \<open>
  The newly visited components are nodes of the graph, distinct and not visited
  before; the traversal below terminates because each step either visits a new node
  or shortens the queue.
\<close>

lemma expand_new:
  "expand G path vs visited = Inr new \<Longrightarrow>
   set new \<subseteq> set (nodes G) \<and> set new \<subseteq> set vs \<and> set new \<inter> set visited = {} \<and> distinct new"
proof (induction vs arbitrary: visited new)
  case Nil
  then show ?case by simp
next
  case (Cons v vs)
  show ?case
  proof (cases "v \<in> set visited")
    case True
    with Cons.prems have "expand G path vs visited = Inr new"
      by (simp split: if_splits)
    from Cons.IH [OF this] show ?thesis by auto
  next
    case False
    with Cons.prems obtain new' where
      r: "expand G path vs (visited @ [v]) = Inr new'" and n: "new = v # new'"
      and ex: "nodeExists G v"
      by (auto split: if_splits sum.splits)
    from Cons.IH [OF r] n ex False show ?thesis
      by (auto simp: nodeExists_def)
  qed
qed

function bfs ::
  "graph \<Rightarrow> (label \<times> label list) list \<Rightarrow> label list \<Rightarrow> graph_error + label list" where
  "bfs G [] visited = Inr visited"
| "bfs G ((u, path) # queue) visited =
     (case expand G (u # path) (outEdges G u ''requiresComponent'') visited of
        Inl e \<Rightarrow> Inl e
      | Inr new \<Rightarrow> bfs G (queue @ map (\<lambda>v. (v, u # path)) new) (visited @ new))"
  by pat_completeness auto
termination
proof (relation "inv_image (less_than <*lex*> less_than)
    (\<lambda>(G, queue, visited). (card (set (nodes G) - set visited), length queue))")
  show "wf (inv_image (less_than <*lex*> less_than)
    (\<lambda>(G, queue, visited). (card (set (nodes G) - set visited), length queue)))"
    by auto
next
  fix G :: graph and u :: label and path queue visited new
  assume "expand G (u # path) (outEdges G u ''requiresComponent'') visited = Inr new"
  from expand_new [OF this]
  have sub: "set new \<subseteq> set (nodes G)" and dis: "set new \<inter> set visited = {}"
    by auto
  show "((G, queue @ map (\<lambda>v. (v, u # path)) new, visited @ new), G, (u, path) # queue, visited)
     \<in> inv_image (less_than <*lex*> less_than)
    (\<lambda>(G, queue, visited). (card (set (nodes G) - set visited), length queue))"
  proof (cases "new = []")
    case True
    then show ?thesis by simp
  next
    case False
    then obtain v where "v \<in> set new" by (cases new) auto
    with sub dis have "set (nodes G) - set (visited @ new) \<subset> set (nodes G) - set visited"
      by auto
    then have "card (set (nodes G) - set (visited @ new)) < card (set (nodes G) - set visited)"
      by (intro psubset_card_mono) auto
    then show ?thesis by simp
  qed
qed

text \<open>
  Modelled from the spec: the source component must be a node of the graph, and it is
  excluded from the result.
\<close>

definition get_component_requirements :: "graph \<Rightarrow> label \<Rightarrow> graph_error + label list" where
  "get_component_requirements mm_graph source_component =
     (if \<not> nodeExists mm_graph source_component then Inl NotFound
      else case bfs mm_graph [(source_component, [])] [source_component] of
             Inl e \<Rightarrow> Inl e
           | Inr visited \<Rightarrow> Inr (filter (\<lambda>v. v \<noteq> source_component) visited))"

text \<open>
  The method, from the source; it reads the graph of \<open>self.se\<close> and leaves it as it is,
  so the model returns the graph with the result.
  \<^verbatim>\<open>
  mm_graph = self.se.get_nx_schema()
  req_components = get_component_requirements(mm_graph, source_component)
  return req_components
  \<close>
\<close>

definition MetadataModel_get_component_requirements ::
  "graph \<Rightarrow> label \<Rightarrow> (graph_error + label list) \<times> graph" where
  "MetadataModel_get_component_requirements schema_nx source_component =
     (let mm_graph = schema_nx;
          req_components = get_component_requirements mm_graph source_component
      in (req_components, schema_nx))"

subsection \<open>Sample graphs\<close>

text \<open>
  A patient record requires a diagnosis and a cancer type, the diagnosis the cancer
  type, the cancer type its stage; an assay requires the biospecimen and patient
  components. The rank of a label rises along every edge of the kind in question,
  which shows that the graph has no cycle of that kind.
\<close>

definition patient_graph :: graph where
  "patient_graph = \<lparr>nodes = [''Patient'', ''Diagnosis'', ''CancerType'', ''Stage''],
         edges = [(''Patient'', ''Diagnosis'', ''requiresDependency''),
                  (''Patient'', ''CancerType'', ''requiresDependency''),
                  (''Diagnosis'', ''CancerType'', ''requiresDependency''),
                  (''CancerType'', ''Stage'', ''requiresDependency'')]\<rparr>"

definition patient_rank :: "label \<Rightarrow> nat" where
  "patient_rank l =
     (if l = ''Patient'' then 0 else if l = ''Diagnosis'' then 1
      else if l = ''CancerType'' then 2 else 3)"

definition assay_graph :: graph where
  "assay_graph = \<lparr>nodes = [''Biospecimen'', ''Patient'', ''Study'', ''Assay''],
         edges = [(''Assay'', ''Biospecimen'', ''requiresComponent''),
                  (''Assay'', ''Patient'', ''requiresComponent''),
                  (''Biospecimen'', ''Patient'', ''requiresComponent''),
                  (''Patient'', ''Study'', ''requiresComponent''),
                  (''Biospecimen'', ''Assay'', ''subClassOf'')]\<rparr>"

definition assay_rank :: "label \<Rightarrow> nat" where
  "assay_rank l =
     (if l = ''Assay'' then 0 else if l = ''Biospecimen'' then 1
      else if l = ''Patient'' then 2 else 3)"

subsection \<open>The traversal returns a closed topological order\<close>

lemma set_outEdges: "set (outEdges G u R) = {v. (u, v) \<in> rel_edges G R}"
  by (auto simp: outEdges_def rel_edges_def image_iff)

lemma dfs_sound:
  "dfs_visit G R path u ord = Inr ord' \<Longrightarrow> topo G R ord \<Longrightarrow>
     topo G R ord' \<and> u \<in> set ord' \<and>
     (\<exists>pre. ord' = pre @ ord \<and> set pre \<inter> set path = {} \<and>
        set pre \<subseteq> {x. (u, x) \<in> (rel_edges G R)\<^sup>*})"
  "dfs_visit_all G R path vs ord = Inr ord' \<Longrightarrow> topo G R ord \<Longrightarrow>
     topo G R ord' \<and> set vs \<subseteq> set ord' \<and>
     (\<exists>pre. ord' = pre @ ord \<and> set pre \<inter> set path = {} \<and>
        set pre \<subseteq> {x. \<exists>v \<in> set vs. (v, x) \<in> (rel_edges G R)\<^sup>*})"
proof (induction G R path u ord and G R path vs ord arbitrary: ord' and ord'
    rule: dfs_visit_dfs_visit_all.induct)
  case (1 G R path u ord)
  note run = "1.prems"(1) and inv = "1.prems"(2)
  from run have notpath: "u \<notin> set path"
    by (auto simp: dfs_visit.simps [of G R path u ord] split: if_splits)
  show ?case
  proof (cases "u \<in> set ord")
    case True
    with run notpath have "ord' = ord"
      by (simp add: dfs_visit.simps [of G R path u ord])
    with True inv show ?thesis by simp
  next
    case False
    with run notpath have ex: "nodeExists G u"
      by (auto simp: dfs_visit.simps [of G R path u ord] split: if_splits)
    with run notpath False obtain ord1 where
      all: "dfs_visit_all G R (u # path) (outEdges G u R) ord = Inr ord1"
      and ord': "ord' = u # ord1"
      by (auto simp: dfs_visit.simps [of G R path u ord] split: sum.splits)
    from "1.IH" [OF notpath False _ all inv] ex
    obtain pre where t1: "topo G R ord1" and sub: "set (outEdges G u R) \<subseteq> set ord1"
      and pre: "ord1 = pre @ ord" "set pre \<inter> set (u # path) = {}"
        "set pre \<subseteq> {x. \<exists>v \<in> set (outEdges G u R). (v, x) \<in> (rel_edges G R)\<^sup>*}"
      by auto
    have "u \<notin> set ord1"
      using pre False by auto
    with t1 sub have "topo G R (u # ord1)" by simp
    moreover have "set (u # pre) \<inter> set path = {}"
      using pre notpath by auto
    moreover have "set (u # pre) \<subseteq> {x. (u, x) \<in> (rel_edges G R)\<^sup>*}"
    proof
      fix x assume "x \<in> set (u # pre)"
      then consider "x = u" | "x \<in> set pre" by auto
      then show "x \<in> {x. (u, x) \<in> (rel_edges G R)\<^sup>*}"
      proof cases
        case 1
        then show ?thesis by simp
      next
        case 2
        with pre(3) obtain v where "(u, v) \<in> rel_edges G R" "(v, x) \<in> (rel_edges G R)\<^sup>*"
          by (auto simp: set_outEdges)
        then show ?thesis
          by (simp add: converse_rtrancl_into_rtrancl)
      qed
    qed
    ultimately show ?thesis
      using ord' pre(1) by auto
  qed
next
  case (2 G R path ord)
  then show ?case by simp
next
  case (3 G R path v vs ord)
  from "3.prems"(1) obtain ord1 where
    first: "dfs_visit G R path v ord = Inr ord1"
    and rest: "dfs_visit_all G R path vs ord1 = Inr ord'"
    by (auto split: sum.splits)
  from "3.IH"(1) [OF first "3.prems"(2)]
  obtain pre1 where t1: "topo G R ord1" and v: "v \<in> set ord1"
    and pre1: "ord1 = pre1 @ ord" "set pre1 \<inter> set path = {}"
      "set pre1 \<subseteq> {x. (v, x) \<in> (rel_edges G R)\<^sup>*}"
    by auto
  from "3.IH"(2) [OF first rest t1]
  obtain pre2 where t2: "topo G R ord'" and vs: "set vs \<subseteq> set ord'"
    and pre2: "ord' = pre2 @ ord1" "set pre2 \<inter> set path = {}"
      "set pre2 \<subseteq> {x. \<exists>w \<in> set vs. (w, x) \<in> (rel_edges G R)\<^sup>*}"
    by auto
  have "ord' = (pre2 @ pre1) @ ord"
    using pre1(1) pre2(1) by simp
  moreover have "set (pre2 @ pre1) \<inter> set path = {}"
    using pre1(2) pre2(2) by auto
  moreover have "set (pre2 @ pre1) \<subseteq> {x. \<exists>w \<in> set (v # vs). (w, x) \<in> (rel_edges G R)\<^sup>*}"
    using pre1(3) pre2(3) by auto
  moreover have "set (v # vs) \<subseteq> set ord'"
    using v vs pre2(1) by auto
  ultimately show ?case
    using t2 by blast
qed

lemma well_formed_target:
  "well_formed G \<Longrightarrow> (a, b) \<in> rel_edges G R \<Longrightarrow> nodeExists G b"
  by (auto simp: well_formed_def rel_edges_def list_all_iff)

lemma dfs_returns:
  "well_formed G \<Longrightarrow> acyclic_from G R root \<Longrightarrow>
   (root, u) \<in> (rel_edges G R)\<^sup>* \<Longrightarrow> nodeExists G u \<Longrightarrow>
   \<forall>p \<in> set path. (p, u) \<in> (rel_edges G R)\<^sup>+ \<Longrightarrow>
   \<exists>ord'. dfs_visit G R path u ord = Inr ord'"
  "well_formed G \<Longrightarrow> acyclic_from G R root \<Longrightarrow>
   \<forall>v \<in> set vs. (root, v) \<in> (rel_edges G R)\<^sup>* \<and> nodeExists G v \<and>
      (\<forall>p \<in> set path. (p, v) \<in> (rel_edges G R)\<^sup>+) \<Longrightarrow>
   \<exists>ord'. dfs_visit_all G R path vs ord = Inr ord'"
proof (induction G R path u ord and G R path vs ord
    rule: dfs_visit_dfs_visit_all.induct)
  case (1 G R path u ord)
  have notpath: "u \<notin> set path"
  proof
    assume "u \<in> set path"
    with "1.prems"(5) have "(u, u) \<in> (rel_edges G R)\<^sup>+" by blast
    with "1.prems"(2,3) show False by (auto simp: acyclic_from_def)
  qed
  show ?case
  proof (cases "u \<in> set ord")
    case True
    with notpath show ?thesis
      by (simp add: dfs_visit.simps [of G R path u ord])
  next
    case False
    have "\<forall>v \<in> set (outEdges G u R). (root, v) \<in> (rel_edges G R)\<^sup>* \<and> nodeExists G v \<and>
        (\<forall>p \<in> set (u # path). (p, v) \<in> (rel_edges G R)\<^sup>+)"
    proof
      fix v assume "v \<in> set (outEdges G u R)"
      then have e: "(u, v) \<in> rel_edges G R" by (simp add: set_outEdges)
      have "(root, v) \<in> (rel_edges G R)\<^sup>*"
        using "1.prems"(3) e by (rule rtrancl_into_rtrancl)
      moreover have "nodeExists G v"
        using "1.prems"(1) e by (rule well_formed_target)
      moreover have "\<forall>p \<in> set (u # path). (p, v) \<in> (rel_edges G R)\<^sup>+"
        using "1.prems"(5) e by (auto intro: trancl_into_trancl)
      ultimately show "(root, v) \<in> (rel_edges G R)\<^sup>* \<and> nodeExists G v \<and>
        (\<forall>p \<in> set (u # path). (p, v) \<in> (rel_edges G R)\<^sup>+)"
        by simp
    qed
    from "1.IH" [OF notpath False _ "1.prems"(1,2) this] "1.prems"(4)
    obtain ord1 where "dfs_visit_all G R (u # path) (outEdges G u R) ord = Inr ord1"
      by auto
    with notpath False "1.prems"(4) show ?thesis
      by (simp add: dfs_visit.simps [of G R path u ord])
  qed
next
  case (2 G R path ord)
  then show ?case by simp
next
  case (3 G R path v vs ord)
  from "3.prems"(3) have v: "(root, v) \<in> (rel_edges G R)\<^sup>*" "nodeExists G v"
    "\<forall>p \<in> set path. (p, v) \<in> (rel_edges G R)\<^sup>+"
    by auto
  from "3.IH"(1) [OF "3.prems"(1,2) v]
  obtain ord1 where first: "dfs_visit G R path v ord = Inr ord1" by blast
  from "3.prems"(3) have "\<forall>w \<in> set vs. (root, w) \<in> (rel_edges G R)\<^sup>* \<and> nodeExists G w \<and>
      (\<forall>p \<in> set path. (p, w) \<in> (rel_edges G R)\<^sup>+)"
    by simp
  from "3.IH"(2) [OF first "3.prems"(1,2) this]
  obtain ord' where "dfs_visit_all G R path vs ord1 = Inr ord'" by blast
  with first show ?case by simp
qed

lemma topo_distinct: "topo G R xs \<Longrightarrow> distinct xs"
  by (induction xs) auto

lemma topo_succs: "topo G R xs \<Longrightarrow> y \<in> set xs \<Longrightarrow> set (outEdges G y R) \<subseteq> set xs"
  by (induction xs) auto

lemma topo_closed:
  assumes "(a, b) \<in> (rel_edges G R)\<^sup>*" and "topo G R xs" and "a \<in> set xs"
  shows "b \<in> set xs"
  using assms
proof (induction rule: rtrancl_induct)
  case base
  then show ?case by simp
next
  case (step y z)
  then have "y \<in> set xs" by simp
  with step.prems(1) have "set (outEdges G y R) \<subseteq> set xs"
    by (rule topo_succs)
  with step.hyps(2) show ?case by (auto simp: set_outEdges)
qed

lemma topo_precedes:
  "topo G R xs \<Longrightarrow> a \<in> set xs \<Longrightarrow> (a, b) \<in> rel_edges G R \<Longrightarrow> precedes a b xs"
  by (induction xs) (auto simp: set_outEdges)

lemma precedes_in_set: "precedes a b xs \<Longrightarrow> a \<in> set xs \<and> b \<in> set xs"
  by (induction xs) (auto split: if_splits)

lemma precedes_filter:
  "precedes a b xs \<Longrightarrow> P a \<Longrightarrow> P b \<Longrightarrow> precedes a b (filter P xs)"
  by (induction xs) (auto split: if_splits)

lemma precedes_append:
  "precedes a b (xs @ ys) =
     (if a \<in> set xs then precedes a b xs \<or> b \<in> set ys else precedes a b ys)"
  by (induction xs) auto

lemma precedes_rev: "precedes a b xs \<Longrightarrow> precedes b a (rev xs)"
proof (induction xs)
  case Nil
  then show ?case by simp
next
  case (Cons x xs)
  show ?case
  proof (cases "x = a")
    case True
    with Cons.prems show ?thesis by (simp add: precedes_append)
  next
    case False
    with Cons.prems have p: "precedes a b xs" by simp
    then have "b \<in> set xs" by (simp add: precedes_in_set)
    with Cons.IH [OF p] show ?thesis by (simp add: precedes_append)
  qed
qed

lemma dfs_from_root:
  assumes "well_formed G" and "nodeExists G root" and "acyclic_from G R root"
  shows "\<exists>ord. dfs_visit G R [] root [] = Inr ord \<and> topo G R ord \<and>
           set ord = {x. (root, x) \<in> (rel_edges G R)\<^sup>*}"
proof -
  from dfs_returns(1) [OF assms(1,3) _ assms(2), of "[]" "[]"]
  obtain ord where run: "dfs_visit G R [] root [] = Inr ord" by auto
  from dfs_sound(1) [OF run] have t: "topo G R ord" and r: "root \<in> set ord"
    and sub: "set ord \<subseteq> {x. (root, x) \<in> (rel_edges G R)\<^sup>*}"
    by auto
  have "{x. (root, x) \<in> (rel_edges G R)\<^sup>*} \<subseteq> set ord"
    using topo_closed [OF _ t r] by auto
  with run t sub show ?thesis by auto
qed

lemma acyclic_from_irrefl:
  "acyclic_from G R root \<Longrightarrow> (root, x) \<in> (rel_edges G R)\<^sup>+ \<Longrightarrow> x \<noteq> root"
  by (auto simp: acyclic_from_def)

lemma acyclic_from_rank:
  fixes rank :: "label \<Rightarrow> nat"
  assumes "list_all (\<lambda>(a, b, k). k = R \<longrightarrow> rank a < rank b) (edges G)"
  shows "acyclic_from G R root"
proof -
  have "rank a < rank b" if "(a, b) \<in> (rel_edges G R)\<^sup>+" for a b
    using that
  proof (induction rule: trancl_induct)
    case (base y)
    with assms show ?case by (auto simp: rel_edges_def list_all_iff)
  next
    case (step y z)
    from step.hyps(2) assms have "rank y < rank z"
      by (auto simp: rel_edges_def list_all_iff)
    with step.IH show ?case by simp
  qed
  then show ?thesis
    by (fastforce simp: acyclic_from_def)
qed

lemma patient_graph_acyclic: "acyclic_from patient_graph ''requiresDependency'' ''Patient''"
  by (rule acyclic_from_rank [where rank = patient_rank]) code_simp

lemma patient_graph_well_formed: "well_formed patient_graph"
  by code_simp

lemma patient_graph_root: "nodeExists patient_graph ''Patient''"
  by code_simp

lemma patient_graph_edge: "(''Diagnosis'', ''CancerType'') \<in> rel_edges patient_graph ''requiresDependency''"
  by (simp add: rel_edges_def patient_graph_def)

lemma patient_graph_reach: "(''Patient'', ''Diagnosis'') \<in> (rel_edges patient_graph ''requiresDependency'')\<^sup>*"
  by (rule r_into_rtrancl) (simp add: rel_edges_def patient_graph_def)

subsection \<open>Claims about the order of the descendants\<close>

text \<open>
  Claim C3, as amended. For a root that is a node of a well-formed graph whose subgraph
  of kind \<open>R\<close> reachable from the root has no cycle, \<open>getOrderedModelNodes\<close> returns a
  sequence, and for every edge from \<open>u\<close> to \<open>v\<close> of kind \<open>R\<close> with \<open>u\<close> reachable from the
  root and other than the root, the sequence places \<open>v\<close> strictly before \<open>u\<close>:
  requirements come first.
\<close>

theorem getOrderedModelNodes_requirements_first:
  assumes "well_formed G" and "nodeExists G root" and "acyclic_from G R root"
    and "(root, u) \<in> (rel_edges G R)\<^sup>*" and "(u, v) \<in> rel_edges G R" and "u \<noteq> root"
  shows "\<exists>xs. getOrderedModelNodes G root R = Inr xs \<and> precedes v u xs"
proof -
  from dfs_from_root [OF assms(1-3)] obtain ord where
    run: "dfs_visit G R [] root [] = Inr ord" and t: "topo G R ord"
    and s: "set ord = {x. (root, x) \<in> (rel_edges G R)\<^sup>*}"
    by blast
  let ?xs = "rev (filter (\<lambda>v. v \<noteq> root) ord)"
  have run': "getOrderedModelNodes G root R = Inr ?xs"
    by (simp add: getOrderedModelNodes_def get_descendants_by_edge_type_def run)
  have "u \<in> set ord" using s assms(4) by simp
  then have "precedes u v ord"
    using t assms(5) by (simp add: topo_precedes)
  moreover have "v \<noteq> root"
  proof -
    have "(root, v) \<in> (rel_edges G R)\<^sup>+"
      using assms(4,5) by (rule rtrancl_into_trancl1)
    then show ?thesis by (rule acyclic_from_irrefl [OF assms(3)])
  qed
  ultimately have "precedes u v (filter (\<lambda>v. v \<noteq> root) ord)"
    using assms(6) by (simp add: precedes_filter)
  then have "precedes v u ?xs" by (rule precedes_rev)
  with run' show ?thesis by blast
qed

theorem getOrderedModelNodes_requirements_first_witness:
  "well_formed patient_graph \<and> nodeExists patient_graph ''Patient'' \<and>
   acyclic_from patient_graph ''requiresDependency'' ''Patient'' \<and>
   (''Patient'', ''Diagnosis'') \<in> (rel_edges patient_graph ''requiresDependency'')\<^sup>* \<and>
   (''Diagnosis'', ''CancerType'') \<in> rel_edges patient_graph ''requiresDependency'' \<and>
   ''Diagnosis'' \<noteq> ''Patient'' \<and>
   (\<exists>xs. getOrderedModelNodes patient_graph ''Patient'' ''requiresDependency'' = Inr xs \<and>
      precedes ''CancerType'' ''Diagnosis'' xs)"
proof -
  have ne: "''Diagnosis'' \<noteq> ''Patient''" by simp
  show ?thesis
    using getOrderedModelNodes_requirements_first
      [OF patient_graph_well_formed patient_graph_root patient_graph_acyclic patient_graph_reach patient_graph_edge ne]
      patient_graph_well_formed patient_graph_root patient_graph_acyclic patient_graph_reach patient_graph_edge ne
    by blast
qed

text \<open>
  Claim C3 as stated fails: \<open>Diagnosis\<close> requires \<open>CancerType\<close>, both reachable from
  \<open>Patient\<close>, and the returned sequence places \<open>Diagnosis\<close> after \<open>CancerType\<close>, not
  before it.
\<close>

theorem getOrderedModelNodes_edge_source_not_first:
  "getOrderedModelNodes patient_graph ''Patient'' ''requiresDependency'' =
     Inr [''Stage'', ''CancerType'', ''Diagnosis''] \<and>
   (''Diagnosis'', ''CancerType'', ''requiresDependency'') \<in> set (edges patient_graph) \<and>
   \<not> precedes ''Diagnosis'' ''CancerType'' [''Stage'', ''CancerType'', ''Diagnosis''] \<and>
   precedes ''CancerType'' ''Diagnosis'' [''Stage'', ''CancerType'', ''Diagnosis'']"
  by code_simp

text \<open>
  Claim C6. Under the same conditions the returned sequence does not contain the root
  and contains no label twice; its members are the nodes reachable from the root by
  one edge or more, so a node reachable by several paths occurs exactly once.
\<close>

theorem getOrderedModelNodes_no_root_no_duplicates:
  assumes "well_formed G" and "nodeExists G root" and "acyclic_from G R root"
  shows "\<exists>xs. getOrderedModelNodes G root R = Inr xs \<and> root \<notin> set xs \<and> distinct xs \<and>
           set xs = {v. (root, v) \<in> (rel_edges G R)\<^sup>+}"
proof -
  from dfs_from_root [OF assms] obtain ord where
    run: "dfs_visit G R [] root [] = Inr ord" and t: "topo G R ord"
    and s: "set ord = {x. (root, x) \<in> (rel_edges G R)\<^sup>*}"
    by blast
  let ?xs = "rev (filter (\<lambda>v. v \<noteq> root) ord)"
  have "getOrderedModelNodes G root R = Inr ?xs"
    by (simp add: getOrderedModelNodes_def get_descendants_by_edge_type_def run)
  moreover have "root \<notin> set ?xs" by simp
  moreover have "distinct ?xs"
    using topo_distinct [OF t] by simp
  moreover have "set ?xs = {v. (root, v) \<in> (rel_edges G R)\<^sup>+}"
    using s acyclic_from_irrefl [OF assms(3)]
    by (auto simp: rtrancl_eq_or_trancl)
  ultimately show ?thesis by blast
qed

theorem getOrderedModelNodes_no_root_no_duplicates_witness:
  "well_formed patient_graph \<and> nodeExists patient_graph ''Patient'' \<and>
   acyclic_from patient_graph ''requiresDependency'' ''Patient'' \<and>
   (\<exists>xs. getOrderedModelNodes patient_graph ''Patient'' ''requiresDependency'' = Inr xs \<and>
      ''Patient'' \<notin> set xs \<and> distinct xs \<and>
      set xs = {v. (''Patient'', v) \<in> (rel_edges patient_graph ''requiresDependency'')\<^sup>+})"
  using getOrderedModelNodes_no_root_no_duplicates [OF patient_graph_well_formed patient_graph_root patient_graph_acyclic]
    patient_graph_well_formed patient_graph_root patient_graph_acyclic
  by blast

subsection \<open>Claims about the required components\<close>

lemma expand_returns:
  "\<forall>v \<in> set vs. v \<notin> set path \<and> nodeExists G v \<Longrightarrow> \<exists>new. expand G path vs visited = Inr new"
proof (induction vs arbitrary: visited)
  case Nil
  then show ?case by simp
next
  case (Cons v vs)
  then have rest: "\<forall>w \<in> set vs. w \<notin> set path \<and> nodeExists G w"
    and v: "v \<notin> set path" "nodeExists G v"
    by auto
  from Cons.IH [OF rest, of visited] Cons.IH [OF rest, of "visited @ [v]"] v
  show ?case by auto
qed

lemma bfs_distinct:
  "bfs G queue visited = Inr res \<Longrightarrow> distinct visited \<Longrightarrow> distinct res"
proof (induction G queue visited rule: bfs.induct)
  case (1 G visited)
  then show ?case by simp
next
  case (2 G u path queue visited)
  from "2.prems"(1) obtain new where
    e: "expand G (u # path) (outEdges G u ''requiresComponent'') visited = Inr new"
    and r: "bfs G (queue @ map (\<lambda>v. (v, u # path)) new) (visited @ new) = Inr res"
    by (auto split: sum.splits)
  from expand_new [OF e] "2.prems"(2) have "distinct (visited @ new)"
    by auto
  with "2.IH" [OF e r] show ?case by simp
qed

lemma bfs_returns:
  "well_formed G \<Longrightarrow> acyclic_from G ''requiresComponent'' src \<Longrightarrow>
   \<forall>(u, path) \<in> set queue. (src, u) \<in> (rel_edges G ''requiresComponent'')\<^sup>* \<and>
      (\<forall>p \<in> set path. (p, u) \<in> (rel_edges G ''requiresComponent'')\<^sup>+) \<Longrightarrow>
   \<exists>res. bfs G queue visited = Inr res"
proof (induction G queue visited rule: bfs.induct)
  case (1 G visited)
  then show ?case by simp
next
  case (2 G u path queue visited)
  let ?E = "rel_edges G ''requiresComponent''"
  from "2.prems"(3) have u: "(src, u) \<in> ?E\<^sup>*" "\<forall>p \<in> set path. (p, u) \<in> ?E\<^sup>+"
    by auto
  have succ: "(src, v) \<in> ?E\<^sup>* \<and> (\<forall>p \<in> set (u # path). (p, v) \<in> ?E\<^sup>+) \<and>
      v \<notin> set (u # path) \<and> nodeExists G v"
    if "v \<in> set (outEdges G u ''requiresComponent'')" for v
  proof -
    from that have e: "(u, v) \<in> ?E" by (simp add: set_outEdges)
    have r: "(src, v) \<in> ?E\<^sup>*" using u(1) e by (rule rtrancl_into_rtrancl)
    have t: "\<forall>p \<in> set (u # path). (p, v) \<in> ?E\<^sup>+"
      using u(2) e by (auto intro: trancl_into_trancl)
    have "v \<notin> set (u # path)"
    proof
      assume "v \<in> set (u # path)"
      with t have "(v, v) \<in> ?E\<^sup>+" by blast
      with "2.prems"(2) r show False by (auto simp: acyclic_from_def)
    qed
    moreover have "nodeExists G v"
      using "2.prems"(1) e by (rule well_formed_target)
    ultimately show ?thesis using r t by simp
  qed
  then have "\<forall>v \<in> set (outEdges G u ''requiresComponent''). v \<notin> set (u # path) \<and> nodeExists G v"
    by blast
  from expand_returns [OF this] obtain new where
    e: "expand G (u # path) (outEdges G u ''requiresComponent'') visited = Inr new"
    by blast
  from expand_new [OF e] have "set new \<subseteq> set (outEdges G u ''requiresComponent'')"
    by simp
  then have added: "(src, v) \<in> ?E\<^sup>* \<and> (\<forall>p \<in> set (u # path). (p, v) \<in> ?E\<^sup>+)"
    if "v \<in> set new" for v
    using succ [of v] that by blast
  have "\<forall>(w, path') \<in> set (queue @ map (\<lambda>v. (v, u # path)) new).
      (src, w) \<in> ?E\<^sup>* \<and> (\<forall>p \<in> set path'. (p, w) \<in> ?E\<^sup>+)"
  proof
    fix x assume "x \<in> set (queue @ map (\<lambda>v. (v, u # path)) new)"
    then consider "x \<in> set queue" | v where "v \<in> set new" "x = (v, u # path)"
      by auto
    then show "case x of (w, path') \<Rightarrow>
        (src, w) \<in> ?E\<^sup>* \<and> (\<forall>p \<in> set path'. (p, w) \<in> ?E\<^sup>+)"
    proof cases
      case 1
      with "2.prems"(3) show ?thesis by simp
    next
      case 2
      with added [of v] show ?thesis by simp
    qed
  qed
  from "2.IH" [OF e "2.prems"(1,2) this] e show ?case by simp
qed

text \<open>
  Claim C8. For a source component that is a node of a well-formed graph whose
  \<open>requiresComponent\<close> subgraph reachable from it has no cycle, two calls of
  \<open>get_component_requirements\<close>, one after the other, return the same sequence, and it
  holds no component twice.
\<close>

theorem get_component_requirements_idempotent:
  assumes "well_formed G" and "nodeExists G source_component"
    and "acyclic_from G ''requiresComponent'' source_component"
  shows "\<exists>xs. (case MetadataModel_get_component_requirements G source_component of
                 (first, G') \<Rightarrow>
                   (case MetadataModel_get_component_requirements G' source_component of
                      (second, G'') \<Rightarrow> first = Inr xs \<and> second = Inr xs \<and> distinct xs))"
proof -
  have "\<forall>(u, path) \<in> set [(source_component, [])].
      (source_component, u) \<in> (rel_edges G ''requiresComponent'')\<^sup>* \<and>
      (\<forall>p \<in> set path. (p, u) \<in> (rel_edges G ''requiresComponent'')\<^sup>+)"
    by simp
  from bfs_returns [OF assms(1,3) this] obtain res where
    run: "bfs G [(source_component, [])] [source_component] = Inr res"
    by blast
  from bfs_distinct [OF run] have "distinct res" by simp
  then have "distinct (filter (\<lambda>v. v \<noteq> source_component) res)" by simp
  with run assms(2) show ?thesis
    by (simp add: MetadataModel_get_component_requirements_def get_component_requirements_def)
qed

theorem get_component_requirements_idempotent_witness:
  "well_formed assay_graph \<and> nodeExists assay_graph ''Assay'' \<and>
   acyclic_from assay_graph ''requiresComponent'' ''Assay'' \<and>
   fst (MetadataModel_get_component_requirements assay_graph ''Assay'') =
     Inr [''Biospecimen'', ''Patient'', ''Study'']"
proof -
  have a: "acyclic_from assay_graph ''requiresComponent'' ''Assay''"
    by (rule acyclic_from_rank [where rank = assay_rank]) code_simp
  have w: "well_formed assay_graph" by code_simp
  have n: "nodeExists assay_graph ''Assay''" by code_simp
  have v: "fst (MetadataModel_get_component_requirements assay_graph ''Assay'') =
     Inr [''Biospecimen'', ''Patient'', ''Study'']"
    by code_simp
  from get_component_requirements_idempotent [OF w n a] a w n v show ?thesis
    by blast
qed

end
